theory Spec2Isabelle
  imports Main "HOL-Library.AList"
begin

section \<open>The blocked-evaluation tracker of nomad/blocked_evals.go\<close>

text \<open>
  The tracker is one Go struct guarded by a readers-writer lock. Every exported operation
  is a critical section on that lock, so the model is sequential: an operation takes the
  tracker and returns the tracker it leaves behind. The lock itself is a field of the model,
  because one path of the worker returns while still holding it. An operation that has to
  wait for a lock nobody will release never returns; such an operation yields \<open>None\<close>.

  Go maps are association lists whose keys are pairwise different (\<open>AList.update\<close> and
  \<open>AList.delete\<close> keep them so). The order of the list stands for the order in which a
  \<open>range\<close> loop happens to visit the map; the properties proved below do not depend on it.
  Go's \<open>int\<close> counters are mathematical integers: they count map entries and stay far
  from the 64-bit limits.
\<close>

subsection \<open>Data\<close>

text \<open>
  Modelled from the spec: the struct \<open>structs.Evaluation\<close> is declared in another package
  and is not part of the source file. The four fields below are the ones the tracker reads.
  \<open>ClassEligibility\<close> is a Go map from computed node class to verdict; it is read with
  \<open>map_of\<close>, so \<open>None\<close> is the absent key.
\<close>

record Evaluation =
  ID :: string
  JobID :: string
  EscapedComputedClass :: bool
  ClassEligibility :: "(string \<times> bool) list"

record BlockedStats =
  TotalEscaped :: int
  TotalBlocked :: int

text \<open>
  The fields of \<open>BlockedEvals\<close>. The broker is an external object; all the tracker does
  with it is call \<open>EnqueueAll\<close>, so \<open>evalBroker\<close> is the list of batches handed over so far.
  \<open>l_locked\<close> is the mutex \<open>l\<close>: true while it is held exclusively. The three channels carry
  no data that the critical sections read; what the code does to them is recorded by two
  counters: \<open>workers\<close> counts the executions of \<open>go b.unblock()\<close> and \<open>stopped\<close> counts the
  executions of \<open>close(b.stopCh)\<close>.
\<close>

record BlockedEvals =
  evalBroker :: "Evaluation list list"
  enabled :: bool
  running :: bool
  stats :: BlockedStats
  l_locked :: bool
  captured :: "(string \<times> Evaluation) list"
  escaped :: "(string \<times> Evaluation) list"
  jobs :: "string set"
  duplicates :: "Evaluation list"
  workers :: nat
  stopped :: nat

definition NewBlockedEvals :: "Evaluation list list \<Rightarrow> BlockedEvals" where
  "NewBlockedEvals broker =
     \<lparr>evalBroker = broker, enabled = False, running = False,
      stats = \<lparr>TotalEscaped = 0, TotalBlocked = 0\<rparr>, l_locked = False,
      captured = [], escaped = [], jobs = {}, duplicates = [],
      workers = 0, stopped = 0\<rparr>"

subsection \<open>The lock\<close>

definition Lock :: "BlockedEvals \<Rightarrow> BlockedEvals option" where
  "Lock b = (if l_locked b then None else Some (b\<lparr>l_locked := True\<rparr>))"

definition Unlock :: "BlockedEvals \<Rightarrow> BlockedEvals" where
  "Unlock b = b\<lparr>l_locked := False\<rparr>"

text \<open>A reader waits for a writer; readers are not counted, since no operation overlaps another.\<close>

definition RLock :: "BlockedEvals \<Rightarrow> BlockedEvals option" where
  "RLock b = (if l_locked b then None else Some b)"

definition RUnlock :: "BlockedEvals \<Rightarrow> BlockedEvals" where
  "RUnlock b = b"

subsection \<open>Enabled, Stats\<close>

definition Enabled :: "BlockedEvals \<Rightarrow> (bool \<times> BlockedEvals) option" where
  "Enabled b = (case RLock b of None \<Rightarrow> None | Some b1 \<Rightarrow> Some (enabled b1, RUnlock b1))"

definition Stats :: "BlockedEvals \<Rightarrow> (BlockedStats \<times> BlockedEvals) option" where
  "Stats b =
     (case RLock b of
        None \<Rightarrow> None
      | Some b1 \<Rightarrow>
          Some (\<lparr>TotalEscaped = TotalEscaped (stats b1), TotalBlocked = TotalBlocked (stats b1)\<rparr>,
                RUnlock b1))"

subsection \<open>Flush\<close>

text \<open>
  Lines 256 to 274, between \<open>Lock\<close> and the deferred \<open>Unlock\<close>. The three \<open>make(chan ...)\<close>
  assignments install fresh, empty channels and leave nothing to record.
\<close>

definition Flush_locked :: "BlockedEvals \<Rightarrow> BlockedEvals" where
  "Flush_locked b =
     (let b1 = (if running b then b\<lparr>stopped := stopped b + 1, running := False\<rparr> else b)
      in b1\<lparr>stats := \<lparr>TotalEscaped = 0, TotalBlocked = 0\<rparr>,
            captured := [], escaped := [], jobs := {}, duplicates := []\<rparr>)"

definition Flush :: "BlockedEvals \<Rightarrow> BlockedEvals option" where
  "Flush b = (case Lock b of None \<Rightarrow> None | Some b1 \<Rightarrow> Some (Unlock (Flush_locked b1)))"

subsection \<open>SetEnabled\<close>

text \<open>Lines 92 to 98: the critical section of \<open>SetEnabled\<close>.\<close>

definition SetEnabled_locked :: "bool \<Rightarrow> BlockedEvals \<Rightarrow> BlockedEvals" where
  "SetEnabled_locked on b =
     (let b1 = b\<lparr>enabled := on\<rparr>
      in if \<not> running b1 then b1\<lparr>running := True, workers := workers b1 + 1\<rparr> else b1)"

definition SetEnabled_section :: "bool \<Rightarrow> BlockedEvals \<Rightarrow> BlockedEvals option" where
  "SetEnabled_section on b =
     (case Lock b of None \<Rightarrow> None | Some b1 \<Rightarrow> Some (Unlock (SetEnabled_locked on b1)))"

text \<open>The whole call: the critical section, then \<open>Flush\<close> when the tracker is switched off.\<close>

definition SetEnabled :: "bool \<Rightarrow> BlockedEvals \<Rightarrow> BlockedEvals option" where
  "SetEnabled on b =
     (case SetEnabled_section on b of
        None \<Rightarrow> None
      | Some b1 \<Rightarrow> if \<not> on then Flush b1 else Some b1)"

subsection \<open>Block\<close>

text \<open>
  Lines 110 to 136. The non-blocking send on \<open>duplicateCh\<close> only wakes a caller parked in
  \<open>GetDuplicates\<close>; it changes no field.
\<close>

definition Block_locked :: "BlockedEvals \<Rightarrow> Evaluation \<Rightarrow> BlockedEvals" where
  "Block_locked b eval =
     (if \<not> enabled b then b
      else if JobID eval \<in> jobs b then b\<lparr>duplicates := duplicates b @ [eval]\<rparr>
      else
        let b1 = b\<lparr>stats := (stats b)\<lparr>TotalBlocked := TotalBlocked (stats b) + 1\<rparr>,
                   jobs := insert (JobID eval) (jobs b)\<rparr>
        in if EscapedComputedClass eval
           then b1\<lparr>escaped := AList.update (ID eval) eval (escaped b1),
                   stats := (stats b1)\<lparr>TotalEscaped := TotalEscaped (stats b1) + 1\<rparr>\<rparr>
           else b1\<lparr>captured := AList.update (ID eval) eval (captured b1)\<rparr>)"

definition Block :: "BlockedEvals \<Rightarrow> Evaluation \<Rightarrow> BlockedEvals option" where
  "Block b eval = (case Lock b of None \<Rightarrow> None | Some b1 \<Rightarrow> Some (Unlock (Block_locked b1 eval)))"

text \<open>A sequence of \<open>Block\<close> calls, in call order.\<close>

fun Blocks :: "BlockedEvals \<Rightarrow> Evaluation list \<Rightarrow> BlockedEvals option" where
  "Blocks b [] = Some b"
| "Blocks b (eval # evals) = (case Block b eval of None \<Rightarrow> None | Some b1 \<Rightarrow> Blocks b1 evals)"

subsection \<open>The unblock worker\<close>

text \<open>
  The exported \<open>Unblock\<close> only sends its class on \<open>unblockCh\<close>, and only when the
  tracker is enabled; it touches no other field. The class that the worker takes from the
  channel is the argument of \<open>unblock\<close> below.

  One pass of the worker's loop after it has received \<open>computedClass\<close> from the channel.
  \<open>range_escaped\<close> is the loop of lines 170 to 175 over the entries of \<open>escaped\<close>; the slice
  made at line 169 has one slot per entry and the loop fills them in the order of the visit.
  \<open>range_captured\<close> is the loop of lines 184 to 198, \<open>untrack_all\<close> the loop of lines 202 to 204.
\<close>

fun range_escaped ::
  "(string \<times> Evaluation) list \<Rightarrow> Evaluation list \<times> BlockedEvals \<Rightarrow> Evaluation list \<times> BlockedEvals"
where
  "range_escaped [] (unblocked, b) = (unblocked, b)"
| "range_escaped ((id', eval) # rest) (unblocked, b) =
     range_escaped rest
       (unblocked @ [eval],
        b\<lparr>escaped := AList.delete id' (escaped b), jobs := jobs b - {JobID eval}\<rparr>)"

fun range_captured ::
  "string \<Rightarrow> (string \<times> Evaluation) list \<Rightarrow> Evaluation list \<times> string list \<times> BlockedEvals
     \<Rightarrow> Evaluation list \<times> string list \<times> BlockedEvals"
where
  "range_captured computedClass [] (unblocked, untrack, b) = (unblocked, untrack, b)"
| "range_captured computedClass ((id', eval) # rest) (unblocked, untrack, b) =
     (case map_of (ClassEligibility eval) computedClass of
        Some False \<Rightarrow> range_captured computedClass rest (unblocked, untrack, b)
      | _ \<Rightarrow>
          range_captured computedClass rest
            (unblocked @ [eval], untrack @ [id'], b\<lparr>jobs := jobs b - {JobID eval}\<rparr>))"

fun untrack_all :: "string list \<Rightarrow> BlockedEvals \<Rightarrow> BlockedEvals" where
  "untrack_all [] b = b"
| "untrack_all (id' # ids) b = untrack_all ids (b\<lparr>captured := AList.delete id' (captured b)\<rparr>)"

text \<open>Lines 164 to 214, run with the lock held and \<open>running\<close> true.\<close>

definition unblock_locked :: "string \<Rightarrow> BlockedEvals \<Rightarrow> BlockedEvals" where
  "unblock_locked computedClass b =
     (let (unblocked1, b1) =
            (if length (escaped b) \<noteq> 0 then range_escaped (escaped b) ([], b) else ([], b));
          (unblocked, untrack, b2) = range_captured computedClass (captured b1) (unblocked1, [], b1);
          b3 = (if length untrack \<noteq> 0 then untrack_all untrack b2 else b2)
      in if length unblocked \<noteq> 0
         then b3\<lparr>stats := \<lparr>TotalEscaped = 0,
                            TotalBlocked = TotalBlocked (stats b3) - int (length unblocked)\<rparr>,
                 evalBroker := evalBroker b3 @ [unblocked]\<rparr>
         else b3)"

text \<open>
  What the worker does next: go round the loop again, or return. Lines 157 to 215: the
  worker takes the lock, returns at once when \<open>running\<close> is false, and otherwise releases
  the evaluations and unlocks.
\<close>

datatype worker = Looping | Returned

definition unblock :: "string \<Rightarrow> BlockedEvals \<Rightarrow> (worker \<times> BlockedEvals) option" where
  "unblock computedClass b =
     (case Lock b of
        None \<Rightarrow> None
      | Some b1 \<Rightarrow>
          if \<not> running b1 then Some (Returned, b1)
          else Some (Looping, Unlock (unblock_locked computedClass b1)))"

subsection \<open>GetDuplicates\<close>

text \<open>
  Lines 226 to 233, the scan at the label \<open>SCAN\<close>. The first component is the slice the call
  returns; \<open>None\<close> means that the list was empty and the caller goes on to wait on the
  channels and the timer.
\<close>

definition GetDuplicates :: "BlockedEvals \<Rightarrow> (Evaluation list option \<times> BlockedEvals) option" where
  "GetDuplicates b =
     (case Lock b of
        None \<Rightarrow> None
      | Some b1 \<Rightarrow>
          if length (duplicates b1) \<noteq> 0
          then Some (Some (duplicates b1), Unlock (b1\<lparr>duplicates := []\<rparr>))
          else Some (None, Unlock b1))"

subsection \<open>Atomic steps and runs\<close>

text \<open>
  The critical sections are the atomic steps of the tracker; a run is a sequence of them,
  in the order in which they take the lock. \<open>SetEnabled false\<close> is two steps, its own
  section and then \<open>Flush\<close>, and other steps may come between the two. \<open>OpUnblock c\<close>
  is the worker handling the class \<open>c\<close> it has received.
\<close>

datatype op =
    OpSetEnabled bool
  | OpBlock Evaluation
  | OpUnblock string
  | OpGetDuplicates
  | OpFlush

fun step :: "BlockedEvals \<Rightarrow> op \<Rightarrow> BlockedEvals option" where
  "step b (OpSetEnabled on) = SetEnabled_section on b"
| "step b (OpBlock eval) = Block b eval"
| "step b (OpUnblock computedClass) = map_option snd (unblock computedClass b)"
| "step b OpGetDuplicates = map_option snd (GetDuplicates b)"
| "step b OpFlush = Flush b"

fun run :: "BlockedEvals \<Rightarrow> op list \<Rightarrow> BlockedEvals option" where
  "run b [] = Some b"
| "run b (x # xs) = (case step b x of None \<Rightarrow> None | Some b1 \<Rightarrow> run b1 xs)"

text \<open>The evaluations a run passes to \<open>Block\<close>.\<close>

fun op_evals :: "op list \<Rightarrow> Evaluation list" where
  "op_evals [] = []"
| "op_evals (OpBlock eval # xs) = eval # op_evals xs"
| "op_evals (_ # xs) = op_evals xs"

subsection \<open>Invariants of the store\<close>

text \<open>The evaluations held in \<open>captured\<close> and \<open>escaped\<close>, one per map entry.\<close>

definition tracked :: "BlockedEvals \<Rightarrow> Evaluation list" where
  "tracked b = map snd (captured b) @ map snd (escaped b)"

text \<open>A map from evaluation ID to evaluation: the keys differ and each is the ID of its value.\<close>

definition keyed_by_ID :: "(string \<times> Evaluation) list \<Rightarrow> bool" where
  "keyed_by_ID m \<longleftrightarrow> distinct (map fst m) \<and> (\<forall>(k, e) \<in> set m. k = ID e)"

text \<open>
  The job index: the tracked evaluations belong to pairwise different jobs, and \<open>jobs\<close> is
  exactly the set of those jobs.
\<close>

definition store_inv :: "BlockedEvals \<Rightarrow> bool" where
  "store_inv b \<longleftrightarrow>
     keyed_by_ID (captured b) \<and> keyed_by_ID (escaped b) \<and>
     distinct (map JobID (tracked b)) \<and> jobs b = JobID ` set (tracked b)"

definition counters_inv :: "BlockedEvals \<Rightarrow> bool" where
  "counters_inv b \<longleftrightarrow>
     TotalBlocked (stats b) = int (length (captured b)) + int (length (escaped b)) \<and>
     TotalEscaped (stats b) = int (length (escaped b))"

text \<open>The evaluations of job \<open>J\<close> in a list, in the order of the list.\<close>

definition of_job :: "string \<Rightarrow> Evaluation list \<Rightarrow> Evaluation list" where
  "of_job J evals = filter (\<lambda>e. JobID e = J) evals"

text \<open>An evaluation in \<open>captured\<close> is released for a class unless it is marked ineligible for it.\<close>

definition released_for :: "string \<Rightarrow> string \<times> Evaluation \<Rightarrow> bool" where
  "released_for computedClass p \<longleftrightarrow> map_of (ClassEligibility (snd p)) computedClass \<noteq> Some False"

subsection \<open>Evaluations for the examples\<close>

definition eval1 :: Evaluation where
  "eval1 = \<lparr>ID = ''e1'', JobID = ''j1'', EscapedComputedClass = False,
            ClassEligibility = [(''classA'', False)]\<rparr>"

definition eval2 :: Evaluation where
  "eval2 = \<lparr>ID = ''e2'', JobID = ''j1'', EscapedComputedClass = False,
            ClassEligibility = []\<rparr>"

definition eval3 :: Evaluation where
  "eval3 = \<lparr>ID = ''e3'', JobID = ''j3'', EscapedComputedClass = True,
            ClassEligibility = []\<rparr>"

definition eval4 :: Evaluation where
  "eval4 = \<lparr>ID = ''e4'', JobID = ''j4'', EscapedComputedClass = False,
            ClassEligibility = [(''classA'', True)]\<rparr>"

text \<open>A different evaluation that carries the ID of \<open>eval1\<close>.\<close>

definition eval5 :: Evaluation where
  "eval5 = \<lparr>ID = ''e1'', JobID = ''j5'', EscapedComputedClass = False,
            ClassEligibility = []\<rparr>"

text \<open>An enabled tracker with a worker started and nothing blocked.\<close>

definition enabled_tracker :: BlockedEvals where
  "enabled_tracker = (NewBlockedEvals [])\<lparr>enabled := True, running := True, workers := 1\<rparr>"

text \<open>
  The tracker after \<open>Block\<close> of \<open>eval1\<close>, \<open>eval2\<close>, \<open>eval3\<close> and \<open>eval4\<close>: two captured
  evaluations, one escaped, one duplicate.
\<close>

definition busy_tracker :: BlockedEvals where
  "busy_tracker =
     enabled_tracker\<lparr>stats := \<lparr>TotalEscaped = 1, TotalBlocked = 3\<rparr>,
                     captured := [(''e1'', eval1), (''e4'', eval4)],
                     escaped := [(''e3'', eval3)],
                     jobs := {''j4'', ''j3'', ''j1''},
                     duplicates := [eval2]\<rparr>"

text \<open>A tracker that was enabled and then disabled: one worker started, one stop signal sent.\<close>

definition flushed_tracker :: BlockedEvals where
  "flushed_tracker = (NewBlockedEvals [])\<lparr>workers := 1, stopped := 1\<rparr>"

text \<open>The busy tracker after the worker has handled \<open>classA\<close>.\<close>

definition after_classA :: BlockedEvals where
  "after_classA =
     busy_tracker\<lparr>stats := \<lparr>TotalEscaped = 0, TotalBlocked = 1\<rparr>,
                  captured := [(''e1'', eval1)],
                  escaped := [],
                  jobs := {''j1''},
                  evalBroker := [[eval3, eval4]]\<rparr>"

section \<open>Properties\<close>

subsection \<open>Critical sections on a free lock\<close>

lemma relock_free: "\<not> l_locked b \<Longrightarrow> b\<lparr>l_locked := False\<rparr> = b"
  by (cases b) simp

lemma Block_free: "\<not> l_locked b \<Longrightarrow> Block b eval = Some (Block_locked b eval)"
  by (cases b) (simp add: Block_def Lock_def Unlock_def Block_locked_def Let_def)

lemma Flush_free: "\<not> l_locked b \<Longrightarrow> Flush b = Some (Flush_locked b)"
  by (cases b) (simp add: Flush_def Lock_def Unlock_def Flush_locked_def Let_def)

lemma SetEnabled_section_free:
  "\<not> l_locked b \<Longrightarrow> SetEnabled_section on b = Some (SetEnabled_locked on b)"
  by (cases b) (simp add: SetEnabled_section_def Lock_def Unlock_def SetEnabled_locked_def Let_def)

text \<open>
  C8. On a disabled tracker whose lock is free, \<open>Block\<close> returns and leaves the tracker as it
  was: the two sets, the job index, the duplicate list and the counters are untouched, so
  \<open>Stats\<close> reports what it reported before.
\<close>

theorem Block_disabled_noop:
  assumes "\<not> enabled b" and "\<not> l_locked b"
  shows "Block b eval = Some b"
proof -
  have "Block b eval = Some (Block_locked b eval)"
    using assms(2) by (rule Block_free)
  moreover have "Block_locked b eval = b"
    using assms(1) by (simp add: Block_locked_def)
  ultimately show ?thesis by simp
qed

theorem Block_disabled_noop_witness:
  "\<not> enabled (NewBlockedEvals []) \<and> \<not> l_locked (NewBlockedEvals []) \<and>
   Block (NewBlockedEvals []) eval1 = Some (NewBlockedEvals [])"
proof -
  have d: "\<not> enabled (NewBlockedEvals [])" and f: "\<not> l_locked (NewBlockedEvals [])"
    by (simp_all add: NewBlockedEvals_def)
  show ?thesis using d f Block_disabled_noop [OF d f, of eval1] by simp
qed

subsection \<open>The worker's loops in closed form\<close>

lemma range_escaped_eq:
  "range_escaped es (u, b) =
     (u @ map snd es,
      b\<lparr>escaped := filter (\<lambda>p. fst p \<notin> fst ` set es) (escaped b),
        jobs := jobs b - JobID ` snd ` set es\<rparr>)"
proof (induction es arbitrary: u b)
  case Nil
  then show ?case by simp
next
  case (Cons p es)
  obtain k e where p: "p = (k, e)" by (cases p)
  have f: "filter (\<lambda>p. fst p \<notin> fst ` set es) (AList.delete k (escaped b))
         = filter (\<lambda>p. fst p \<notin> fst ` set ((k, e) # es)) (escaped b)"
    by (auto simp: AList.delete_eq intro: filter_cong)
  have j: "jobs b - {JobID e} - JobID ` snd ` set es = jobs b - JobID ` snd ` set ((k, e) # es)"
    by auto
  show ?case unfolding p by (simp add: Cons.IH f j del: set_simps image_insert) 
qed

lemma range_captured_eq:
  "range_captured c es (u, t, b) =
     (u @ map snd (filter (released_for c) es),
      t @ map fst (filter (released_for c) es),
      b\<lparr>jobs := jobs b - JobID ` snd ` set (filter (released_for c) es)\<rparr>)"
proof (induction es arbitrary: u t b)
  case Nil
  then show ?case by simp
next
  case (Cons p es)
  obtain k e where p: "p = (k, e)" by (cases p)
  have j: "jobs b - {JobID e} - JobID ` snd ` set (filter (released_for c) es)
         = jobs b - JobID ` snd ` set ((k, e) # filter (released_for c) es)"
    by auto
  show ?case
  proof (cases "released_for c (k, e)")
    case True
    then have "map_of (ClassEligibility e) c \<noteq> Some False" by (simp add: released_for_def)
    then show ?thesis unfolding p using True
      by (simp add: Cons.IH j split: option.split bool.split del: set_simps image_insert set_filter)
  next
    case False
    then have "map_of (ClassEligibility e) c = Some False" by (simp add: released_for_def)
    then show ?thesis unfolding p using False by (simp add: Cons.IH)
  qed
qed

lemma untrack_all_eq:
  "untrack_all ids b = b\<lparr>captured := filter (\<lambda>p. fst p \<notin> set ids) (captured b)\<rparr>"
proof (induction ids arbitrary: b)
  case Nil
  then show ?case by simp
next
  case (Cons k ids)
  have "filter (\<lambda>p. fst p \<notin> set ids) (AList.delete k (captured b))
      = filter (\<lambda>p. fst p \<notin> set (k # ids)) (captured b)"
    by (auto simp: AList.delete_eq intro: filter_cong)
  then show ?case by (simp add: Cons.IH del: set_simps)
qed

lemma unblock_locked_eq:
  "unblock_locked c b =
     (let rel = filter (released_for c) (captured b);
          unblocked = map snd (escaped b) @ map snd rel
      in b\<lparr>escaped := [],
            jobs := jobs b - JobID ` set unblocked,
            captured := filter (\<lambda>p. fst p \<notin> fst ` set rel) (captured b),
            stats := (if unblocked \<noteq> []
                      then \<lparr>TotalEscaped = 0,
                            TotalBlocked = TotalBlocked (stats b) - int (length unblocked)\<rparr>
                      else stats b),
            evalBroker := (if unblocked \<noteq> [] then evalBroker b @ [unblocked]
                           else evalBroker b)\<rparr>)"
proof -
  have e: "(if length (escaped b) \<noteq> 0 then range_escaped (escaped b) ([], b) else ([], b))
         = (map snd (escaped b), b\<lparr>escaped := [], jobs := jobs b - JobID ` snd ` set (escaped b)\<rparr>)"
  proof (cases "escaped b = []")
    case True
    then have "b\<lparr>escaped := [], jobs := jobs b\<rparr> = b" by (cases b) simp
    with True show ?thesis by simp
  next
    case False
    have "filter (\<lambda>p. fst p \<notin> fst ` set (escaped b)) (escaped b) = []"
      by (simp add: filter_empty_conv)
    with False show ?thesis by (simp add: range_escaped_eq)
  qed
  have s: "jobs b - JobID ` snd ` set (escaped b) - JobID ` snd ` set (filter (released_for c) (captured b))
      = jobs b - JobID ` (snd ` set (escaped b) \<union> snd ` set (filter (released_for c) (captured b)))"
    by auto
  show ?thesis
    unfolding unblock_locked_def e
    by (cases "map snd (escaped b) @ map snd (filter (released_for c) (captured b)) = []")
       (simp_all add: range_captured_eq untrack_all_eq Let_def s del: set_filter)
qed

lemma unblock_locked_lock:
  "unblock_locked c (b\<lparr>l_locked := x\<rparr>) = (unblock_locked c b)\<lparr>l_locked := x\<rparr>"
  by (simp add: unblock_locked_eq Let_def del: set_filter)

lemma unblock_free:
  assumes "running b" and "\<not> l_locked b"
  shows "unblock c b = Some (Looping, unblock_locked c b)"
proof -
  have "l_locked (unblock_locked c b) = l_locked b"
    by (simp add: unblock_locked_eq Let_def del: set_filter)
  then have "(unblock_locked c b)\<lparr>l_locked := False\<rparr> = unblock_locked c b"
    using assms(2) by (simp add: relock_free)
  then show ?thesis
    using assms by (simp add: unblock_def Lock_def Unlock_def unblock_locked_lock)
qed

lemma unblock_locked_escaped: "escaped (unblock_locked c b) = []"
  by (simp add: unblock_locked_eq Let_def del: set_filter)

lemma unblock_locked_captured:
  "captured (unblock_locked c b) =
     filter (\<lambda>p. fst p \<notin> fst ` set (filter (released_for c) (captured b))) (captured b)"
  by (simp add: unblock_locked_eq Let_def del: set_filter)

lemma unblock_locked_jobs:
  "jobs (unblock_locked c b) =
     jobs b - JobID ` (snd ` set (escaped b) \<union> snd ` set (filter (released_for c) (captured b)))"
  by (simp add: unblock_locked_eq Let_def del: set_filter)

lemma unblock_locked_evalBroker:
  "evalBroker (unblock_locked c b) =
     (let unblocked = map snd (escaped b) @ map snd (filter (released_for c) (captured b))
      in if unblocked \<noteq> [] then evalBroker b @ [unblocked] else evalBroker b)"
  by (simp add: unblock_locked_eq Let_def del: set_filter)

lemma unblock_locked_stats:
  "stats (unblock_locked c b) =
     (let unblocked = map snd (escaped b) @ map snd (filter (released_for c) (captured b))
      in if unblocked \<noteq> []
         then \<lparr>TotalEscaped = 0, TotalBlocked = TotalBlocked (stats b) - int (length unblocked)\<rparr>
         else stats b)"
  by (simp add: unblock_locked_eq Let_def del: set_filter)

lemma unblock_locked_frame:
  "enabled (unblock_locked c b) = enabled b"
  "running (unblock_locked c b) = running b"
  "duplicates (unblock_locked c b) = duplicates b"
  "workers (unblock_locked c b) = workers b"
  "stopped (unblock_locked c b) = stopped b"
  "l_locked (unblock_locked c b) = l_locked b"
  by (simp_all add: unblock_locked_eq Let_def del: set_filter)

lemma keyed_captured_kept:
  assumes "distinct (map fst m)"
  shows "filter (\<lambda>p. fst p \<notin> fst ` set (filter P m)) m = filter (\<lambda>p. \<not> P p) m"
proof (rule filter_cong[OF refl])
  fix p assume p: "p \<in> set m"
  show "(fst p \<notin> fst ` set (filter P m)) = (\<not> P p)"
  proof
    assume "fst p \<notin> fst ` set (filter P m)"
    then show "\<not> P p" using p by force
  next
    assume np: "\<not> P p"
    show "fst p \<notin> fst ` set (filter P m)"
    proof
      assume "fst p \<in> fst ` set (filter P m)"
      then obtain q where q: "q \<in> set m" "P q" "fst q = fst p" by auto
      from assms p q(1) q(3) have "q = p"
        by (metis eq_key_imp_eq_value prod.collapse)
      with q(2) np show False by simp
    qed
  qed
qed

text \<open>
  C2. When the worker handles class \<open>c\<close> on a running tracker, an entry of \<open>captured\<close> whose
  evaluation maps \<open>c\<close> to false stays in \<open>captured\<close> and its job stays in \<open>jobs\<close>; an entry
  whose evaluation maps \<open>c\<close> to true, or has no verdict for \<open>c\<close>, leaves \<open>captured\<close> and
  \<open>jobs\<close> and is part of the one batch handed to the broker.
\<close>

theorem unblock_conservative_release:
  assumes "running b" and "\<not> l_locked b" and "store_inv b" and "(k, e) \<in> set (captured b)"
  shows "\<exists>b'. unblock c b = Some (Looping, b') \<and>
     (map_of (ClassEligibility e) c = Some False \<longrightarrow>
        (k, e) \<in> set (captured b') \<and> JobID e \<in> jobs b') \<and>
     (map_of (ClassEligibility e) c = Some True \<or> map_of (ClassEligibility e) c = None \<longrightarrow>
        k \<notin> fst ` set (captured b') \<and> e \<notin> set (tracked b') \<and> JobID e \<notin> jobs b' \<and>
        (\<exists>batch. evalBroker b' = evalBroker b @ [batch] \<and> e \<in> set batch))"
proof -
  let ?b' = "unblock_locked c b"
  let ?rel = "filter (released_for c) (captured b)"
  have dk: "distinct (map fst (captured b))" and kid: "\<forall>(k, e) \<in> set (captured b). k = ID e"
    and dj: "distinct (map JobID (tracked b))" and jb: "jobs b = JobID ` set (tracked b)"
    using assms(3) by (simp_all add: store_inv_def keyed_by_ID_def)
  have cap: "captured ?b' = filter (\<lambda>p. \<not> released_for c p) (captured b)"
    by (simp add: unblock_locked_captured keyed_captured_kept[OF dk] del: set_filter)
  have inj: "inj_on JobID (set (tracked b))"
    using dj by (simp add: distinct_map)
  have e_tr: "e \<in> set (tracked b)"
    using assms(4) by (force simp: tracked_def)
  have e_not_esc: "e \<notin> snd ` set (escaped b)"
  proof
    assume "e \<in> snd ` set (escaped b)"
    moreover have "e \<in> snd ` set (captured b)" using assms(4) by force
    ultimately have "\<not> distinct (tracked b)" by (auto simp: tracked_def)
    with dj show False by (simp add: distinct_map)
  qed
  have stay: "map_of (ClassEligibility e) c = Some False \<longrightarrow>
        (k, e) \<in> set (captured ?b') \<and> JobID e \<in> jobs ?b'"
  proof (intro impI conjI)
    assume f: "map_of (ClassEligibility e) c = Some False"
    have nr: "\<not> released_for c (k, e)" using f by (simp add: released_for_def)
    then show "(k, e) \<in> set (captured ?b')" using assms(4) by (simp add: cap)
    have "JobID e \<notin> JobID ` (snd ` set (escaped b) \<union> snd ` set ?rel)"
    proof
      assume "JobID e \<in> JobID ` (snd ` set (escaped b) \<union> snd ` set ?rel)"
      then obtain e' where e': "e' \<in> snd ` set (escaped b) \<union> snd ` set ?rel" "JobID e' = JobID e"
        by (elim imageE) simp
      then have "e' \<in> set (tracked b)" by (auto simp: tracked_def)
      with inj e_tr e'(2) have "e' = e" by (auto dest: inj_onD)
      with e'(1) e_not_esc have "e \<in> snd ` set ?rel" by simp
      then obtain k' where "released_for c (k', e)" by auto
      with nr show False by (simp add: released_for_def)
    qed
    moreover have "JobID e \<in> jobs b" using jb e_tr by simp
    ultimately show "JobID e \<in> jobs ?b'" by (simp add: unblock_locked_jobs)
  qed
  have go: "map_of (ClassEligibility e) c = Some True \<or> map_of (ClassEligibility e) c = None \<longrightarrow>
        k \<notin> fst ` set (captured ?b') \<and> e \<notin> set (tracked ?b') \<and> JobID e \<notin> jobs ?b' \<and>
        (\<exists>batch. evalBroker ?b' = evalBroker b @ [batch] \<and> e \<in> set batch)"
  proof
    assume t: "map_of (ClassEligibility e) c = Some True \<or> map_of (ClassEligibility e) c = None"
    have r: "released_for c (k, e)" using t by (auto simp: released_for_def)
    then have in_rel: "(k, e) \<in> set ?rel" using assms(4) by simp
    then have 1: "k \<notin> fst ` set (captured ?b')"
      by (force simp: unblock_locked_captured)
    have 2: "e \<notin> set (tracked ?b')"
    proof
      assume "e \<in> set (tracked ?b')"
      then obtain k' where k': "(k', e) \<in> set (captured ?b')"
        by (auto simp: tracked_def unblock_locked_escaped)
      then have "\<not> released_for c (k', e)" by (simp add: cap)
      with r show False by (simp add: released_for_def)
    qed
    have 3: "JobID e \<notin> jobs ?b'"
      using in_rel by (force simp: unblock_locked_jobs)
    have 4: "\<exists>batch. evalBroker ?b' = evalBroker b @ [batch] \<and> e \<in> set batch"
    proof -
      have ne: "?rel \<noteq> []" using in_rel by (cases ?rel) simp_all
      have "evalBroker ?b' = evalBroker b @ [map snd (escaped b) @ map snd ?rel]"
        using ne by (simp add: unblock_locked_evalBroker Let_def)
      moreover have "e \<in> set (map snd (escaped b) @ map snd ?rel)"
        using in_rel by force
      ultimately show ?thesis by blast
    qed
    from 1 2 3 4 show "k \<notin> fst ` set (captured ?b') \<and> e \<notin> set (tracked ?b') \<and>
        JobID e \<notin> jobs ?b' \<and>
        (\<exists>batch. evalBroker ?b' = evalBroker b @ [batch] \<and> e \<in> set batch)"
      by (intro conjI)
  qed
  have u: "unblock c b = Some (Looping, ?b')"
    using assms(1,2) by (rule unblock_free)
  show ?thesis
    by (rule exI[of _ ?b'], intro conjI) (rule u, rule stay, rule go)
qed

text \<open>
  C3. Whatever the class, handling a notification on a running tracker empties \<open>escaped\<close>,
  removes the job of every escaped evaluation from \<open>jobs\<close>, hands all of them to the broker
  in the batch, and leaves \<open>TotalEscaped\<close> at 0. The counter is reset only when something
  is released; when \<open>escaped\<close> is empty beforehand the counter is 0 already, as it is in
  every tracker that a run can reach (\<open>run_escaped_counter\<close> below).
\<close>

theorem unblock_releases_escaped:
  assumes "running b" and "\<not> l_locked b"
    and "escaped b \<noteq> [] \<or> TotalEscaped (stats b) = 0"
  shows "\<exists>b'. unblock c b = Some (Looping, b') \<and> escaped b' = [] \<and>
     (\<forall>(k, e) \<in> set (escaped b). JobID e \<notin> jobs b') \<and>
     TotalEscaped (stats b') = 0 \<and>
     (escaped b \<noteq> [] \<longrightarrow>
        (\<exists>batch. evalBroker b' = evalBroker b @ [batch] \<and> snd ` set (escaped b) \<subseteq> set batch))"
proof -
  let ?b' = "unblock_locked c b"
  have 1: "\<forall>(k, e) \<in> set (escaped b). JobID e \<notin> jobs ?b'"
    by (force simp: unblock_locked_jobs)
  have 2: "TotalEscaped (stats ?b') = 0"
    using assms(3) by (auto simp: unblock_locked_stats Let_def)
  have 3: "escaped b \<noteq> [] \<longrightarrow>
        (\<exists>batch. evalBroker ?b' = evalBroker b @ [batch] \<and> snd ` set (escaped b) \<subseteq> set batch)"
    by (auto simp: unblock_locked_evalBroker Let_def)
  have u: "unblock c b = Some (Looping, ?b')"
    using assms(1,2) by (rule unblock_free)
  have 0: "escaped ?b' = []" by (rule unblock_locked_escaped)
  show ?thesis
    by (rule exI[of _ ?b'], intro conjI) (rule u, rule 0, rule 1, rule 2, rule 3)
qed

subsection \<open>The examples\<close>

lemmas ex_defs = busy_tracker_def enabled_tracker_def NewBlockedEvals_def eval1_def eval2_def eval3_def eval4_def

lemma busy_reached: "Blocks enabled_tracker [eval1, eval2, eval3, eval4] = Some busy_tracker"
  by (simp add: ex_defs Block_def Lock_def Unlock_def Block_locked_def Let_def insert_commute)

lemma busy_inv: "store_inv busy_tracker"
  by (auto simp: ex_defs store_inv_def keyed_by_ID_def tracked_def)



theorem unblock_conservative_release_witness:
  "running busy_tracker \<and> \<not> l_locked busy_tracker \<and> store_inv busy_tracker \<and>
   (''e1'', eval1) \<in> set (captured busy_tracker) \<and>
   map_of (ClassEligibility eval1) ''classA'' = Some False \<and>
   (\<exists>b'. unblock ''classA'' busy_tracker = Some (Looping, b') \<and>
         (''e1'', eval1) \<in> set (captured b') \<and> JobID eval1 \<in> jobs b') \<and>
   map_of (ClassEligibility eval1) ''classB'' = None \<and>
   (\<exists>b'. unblock ''classB'' busy_tracker = Some (Looping, b') \<and>
         ''e1'' \<notin> fst ` set (captured b') \<and> eval1 \<notin> set (tracked b') \<and>
         JobID eval1 \<notin> jobs b' \<and>
         (\<exists>batch. evalBroker b' = evalBroker busy_tracker @ [batch] \<and> eval1 \<in> set batch))"
proof -
  have r: "running busy_tracker" and f: "\<not> l_locked busy_tracker"
    by (simp_all add: ex_defs)
  have i: "store_inv busy_tracker"
    by (auto simp: ex_defs store_inv_def keyed_by_ID_def tracked_def)
  have m: "(''e1'', eval1) \<in> set (captured busy_tracker)"
    by (simp add: ex_defs)
  have a: "map_of (ClassEligibility eval1) ''classA'' = Some False"
    and n: "map_of (ClassEligibility eval1) ''classB'' = None"
    by (simp_all add: eval1_def)
  show ?thesis
    using r f i m a n
      unblock_conservative_release [OF r f i m, of "''classA''"]
      unblock_conservative_release [OF r f i m, of "''classB''"]
    by simp
qed

theorem unblock_releases_escaped_witness:
  "running busy_tracker \<and> \<not> l_locked busy_tracker \<and>
   (''e3'', eval3) \<in> set (escaped busy_tracker) \<and> escaped busy_tracker \<noteq> [] \<and>
   (\<exists>b'. unblock ''classA'' busy_tracker = Some (Looping, b') \<and> escaped b' = [] \<and>
         JobID eval3 \<notin> jobs b' \<and> TotalEscaped (stats b') = 0 \<and>
         (\<exists>batch. evalBroker b' = evalBroker busy_tracker @ [batch] \<and> eval3 \<in> set batch)) \<and>
   running enabled_tracker \<and> \<not> l_locked enabled_tracker \<and>
   escaped enabled_tracker = [] \<and> TotalEscaped (stats enabled_tracker) = 0 \<and>
   (\<exists>b'. unblock ''classA'' enabled_tracker = Some (Looping, b') \<and> escaped b' = [] \<and>
         TotalEscaped (stats b') = 0)"
proof -
  have r: "running busy_tracker" and f: "\<not> l_locked busy_tracker"
    by (simp_all add: ex_defs)
  have e: "escaped busy_tracker = [(''e3'', eval3)]"
    by (simp add: ex_defs)
  then have t: "escaped busy_tracker \<noteq> [] \<or> TotalEscaped (stats busy_tracker) = 0"
    by simp
  have r': "running enabled_tracker" and f': "\<not> l_locked enabled_tracker"
    and e': "escaped enabled_tracker = []" and z: "TotalEscaped (stats enabled_tracker) = 0"
    by (simp_all add: ex_defs)
  from z have t': "escaped enabled_tracker \<noteq> [] \<or> TotalEscaped (stats enabled_tracker) = 0"
    by simp
  show ?thesis
    using r f r' f' z
      unblock_releases_escaped [OF r f t, of "''classA''"]
      unblock_releases_escaped [OF r' f' t', of "''classA''"]
    by (simp add: e e')
qed

subsection \<open>Flush and GetDuplicates\<close>

lemma Flush_locked_fields:
  "enabled (Flush_locked b) = enabled b"
  "\<not> running (Flush_locked b)"
  "workers (Flush_locked b) = workers b"
  "l_locked (Flush_locked b) = l_locked b"
  "captured (Flush_locked b) = []"
  "escaped (Flush_locked b) = []"
  "jobs (Flush_locked b) = {}"
  "duplicates (Flush_locked b) = []"
  "stats (Flush_locked b) = \<lparr>TotalEscaped = 0, TotalBlocked = 0\<rparr>"
  "stopped (Flush_locked b) = (if running b then stopped b + 1 else stopped b)"
  "evalBroker (Flush_locked b) = evalBroker b"
  by (simp_all add: Flush_locked_def Let_def)

lemma Flush_locked_idem: "Flush_locked (Flush_locked b) = Flush_locked b"
  by (simp add: Flush_locked_def Let_def)

lemma Block_locked_empty:
  assumes "enabled b" and "jobs b = {}" and "captured b = []" and "escaped b = []"
    and "TotalBlocked (stats b) = 0"
  shows "tracked (Block_locked b eval) = [eval]"
    and "jobs (Block_locked b eval) = {JobID eval}"
    and "TotalBlocked (stats (Block_locked b eval)) = 1"
    and "duplicates (Block_locked b eval) = duplicates b"
    and "running (Block_locked b eval) = running b"
    and "workers (Block_locked b eval) = workers b"
  using assms by (simp_all add: Block_locked_def Let_def tracked_def)

text \<open>
  C6. \<open>Flush\<close> on a free lock returns and leaves both counters at 0, so that \<open>Stats\<close>
  reports 0 and 0, with \<open>captured\<close>, \<open>escaped\<close>, \<open>jobs\<close> and \<open>duplicates\<close> empty. A second
  \<open>Flush\<close> right after it returns the very same tracker. If the tracker is enabled, a
  \<open>Block\<close> after the \<open>Flush\<close> is tracked as the only evaluation and is no duplicate,
  whatever its job was before.
\<close>

theorem Flush_resets:
  assumes "\<not> l_locked b"
  shows "\<exists>b'. Flush b = Some b' \<and>
      map_option fst (Stats b') = Some \<lparr>TotalEscaped = 0, TotalBlocked = 0\<rparr> \<and>
      captured b' = [] \<and> escaped b' = [] \<and> jobs b' = {} \<and> duplicates b' = [] \<and>
      Flush b' = Some b' \<and>
      (enabled b \<longrightarrow>
         (\<exists>b''. Block b' eval = Some b'' \<and> duplicates b'' = [] \<and> tracked b'' = [eval] \<and>
                jobs b'' = {JobID eval} \<and> TotalBlocked (stats b'') = 1))"
proof -
  let ?b' = "Flush_locked b"
  have free: "\<not> l_locked ?b'" using assms by (simp add: Flush_locked_fields)
  have 1: "Flush b = Some ?b'" using assms by (rule Flush_free)
  have 2: "map_option fst (Stats ?b') = Some \<lparr>TotalEscaped = 0, TotalBlocked = 0\<rparr>"
    using free by (simp add: Stats_def RLock_def RUnlock_def Flush_locked_fields)
  have 3: "Flush ?b' = Some ?b'"
    using free by (simp add: Flush_free Flush_locked_idem)
  have 4: "enabled b \<longrightarrow>
         (\<exists>b''. Block ?b' eval = Some b'' \<and> duplicates b'' = [] \<and> tracked b'' = [eval] \<and>
                jobs b'' = {JobID eval} \<and> TotalBlocked (stats b'') = 1)"
  proof
    assume "enabled b"
    then have en: "enabled ?b'" by (simp add: Flush_locked_fields)
    have "Block ?b' eval = Some (Block_locked ?b' eval)" using free by (rule Block_free)
    then show "\<exists>b''. Block ?b' eval = Some b'' \<and> duplicates b'' = [] \<and> tracked b'' = [eval] \<and>
                jobs b'' = {JobID eval} \<and> TotalBlocked (stats b'') = 1"
      using en by (simp add: Block_locked_empty Flush_locked_fields)
  qed
  show ?thesis
    by (rule exI[of _ ?b'], intro conjI)
       (rule 1, rule 2, simp_all only: Flush_locked_fields, rule 3, rule 4)
qed

theorem Flush_resets_witness:
  "\<not> l_locked busy_tracker \<and> enabled busy_tracker \<and> JobID eval2 \<in> jobs busy_tracker \<and>
   (\<exists>b'. Flush busy_tracker = Some b' \<and>
      map_option fst (Stats b') = Some \<lparr>TotalEscaped = 0, TotalBlocked = 0\<rparr> \<and>
      captured b' = [] \<and> escaped b' = [] \<and> jobs b' = {} \<and> duplicates b' = [] \<and>
      Flush b' = Some b' \<and>
      (\<exists>b''. Block b' eval2 = Some b'' \<and> duplicates b'' = [] \<and> tracked b'' = [eval2] \<and>
                jobs b'' = {JobID eval2} \<and> TotalBlocked (stats b'') = 1))"
proof -
  have f: "\<not> l_locked busy_tracker" and e: "enabled busy_tracker"
    and j: "JobID eval2 \<in> jobs busy_tracker"
    by (simp_all add: ex_defs)
  show ?thesis
    using f e j Flush_resets [OF f, of eval2] by simp
qed

lemma GetDuplicates_free:
  assumes "\<not> l_locked b" and "duplicates b \<noteq> []"
  shows "GetDuplicates b = Some (Some (duplicates b), b\<lparr>duplicates := []\<rparr>)"
  using assms by (cases b) (simp add: GetDuplicates_def Lock_def Unlock_def)

lemma Stats_free:
  "\<not> l_locked b \<Longrightarrow> Stats b = Some (stats b, b)"
  by (simp add: Stats_def RLock_def RUnlock_def)

lemma Block_locked_duplicate:
  assumes "enabled b" and "JobID eval \<in> jobs b"
  shows "Block_locked b eval = b\<lparr>duplicates := duplicates b @ [eval]\<rparr>"
  using assms by (simp add: Block_locked_def)

lemma Block_locked_frame:
  "l_locked (Block_locked b eval) = l_locked b"
  "enabled (Block_locked b eval) = enabled b"
  "running (Block_locked b eval) = running b"
  "workers (Block_locked b eval) = workers b"
  "stopped (Block_locked b eval) = stopped b"
  "evalBroker (Block_locked b eval) = evalBroker b"
  by (simp_all add: Block_locked_def Let_def)

text \<open>
  C7. With a non-empty duplicate list, \<open>GetDuplicates\<close> returns the whole list in its order
  and leaves the list empty, in one critical section. After \<open>Block\<close> of two evaluations of
  the same job on an enabled, empty tracker, it returns exactly the second one, and \<open>Stats\<close>
  then reports one blocked evaluation.
\<close>

theorem GetDuplicates_drains:
  assumes "\<not> l_locked b"
  shows "(duplicates b \<noteq> [] \<longrightarrow>
            GetDuplicates b = Some (Some (duplicates b), b\<lparr>duplicates := []\<rparr>)) \<and>
         (enabled b \<and> jobs b = {} \<and> captured b = [] \<and> escaped b = [] \<and> duplicates b = [] \<and>
          TotalBlocked (stats b) = 0 \<and> JobID e1 = JobID e2 \<longrightarrow>
            (\<exists>b1 b2 b3. Block b e1 = Some b1 \<and> Block b1 e2 = Some b2 \<and>
               GetDuplicates b2 = Some (Some [e2], b3) \<and> duplicates b3 = [] \<and>
               map_option (\<lambda>r. TotalBlocked (fst r)) (Stats b3) = Some 1))"
proof (intro conjI impI)
  assume "duplicates b \<noteq> []"
  with assms show "GetDuplicates b = Some (Some (duplicates b), b\<lparr>duplicates := []\<rparr>)"
    by (rule GetDuplicates_free)
next
  assume h: "enabled b \<and> jobs b = {} \<and> captured b = [] \<and> escaped b = [] \<and> duplicates b = [] \<and>
          TotalBlocked (stats b) = 0 \<and> JobID e1 = JobID e2"
  let ?b1 = "Block_locked b e1"
  let ?b2 = "Block_locked ?b1 e2"
  let ?b3 = "?b2\<lparr>duplicates := []\<rparr>"
  have f1: "\<not> l_locked ?b1" using assms by (simp add: Block_locked_frame)
  have j1: "JobID e2 \<in> jobs ?b1" and d1: "duplicates ?b1 = []"
    and t1: "TotalBlocked (stats ?b1) = 1" and en1: "enabled ?b1"
    using h by (simp_all add: Block_locked_empty Block_locked_frame)
  have b2: "?b2 = ?b1\<lparr>duplicates := [e2]\<rparr>"
    using Block_locked_duplicate[OF en1 j1] d1 by simp
  have f2: "\<not> l_locked ?b2" using f1 by (simp add: Block_locked_frame)
  have d2: "duplicates ?b2 = [e2]" by (simp add: b2)
  have t2: "TotalBlocked (stats ?b2) = 1" using t1 by (simp add: b2)
  have 1: "Block b e1 = Some ?b1" using assms by (rule Block_free)
  have 2: "Block ?b1 e2 = Some ?b2" using f1 by (rule Block_free)
  have 3: "GetDuplicates ?b2 = Some (Some [e2], ?b3)"
    using GetDuplicates_free[OF f2] d2 by simp
  have 4: "duplicates ?b3 = []" by simp
  have 5: "map_option (\<lambda>r. TotalBlocked (fst r)) (Stats ?b3) = Some 1"
    using f2 t2 by (simp add: Stats_free)
  show "\<exists>b1 b2 b3. Block b e1 = Some b1 \<and> Block b1 e2 = Some b2 \<and>
               GetDuplicates b2 = Some (Some [e2], b3) \<and> duplicates b3 = [] \<and>
               map_option (\<lambda>r. TotalBlocked (fst r)) (Stats b3) = Some 1"
    by (rule exI[of _ ?b1], rule exI[of _ ?b2], rule exI[of _ ?b3], intro conjI)
       (rule 1, rule 2, rule 3, rule 4, rule 5)
qed

theorem GetDuplicates_drains_witness:
  "\<not> l_locked busy_tracker \<and> duplicates busy_tracker \<noteq> [] \<and>
   GetDuplicates busy_tracker = Some (Some [eval2], busy_tracker\<lparr>duplicates := []\<rparr>) \<and>
   \<not> l_locked enabled_tracker \<and> enabled enabled_tracker \<and> jobs enabled_tracker = {} \<and>
   captured enabled_tracker = [] \<and> escaped enabled_tracker = [] \<and>
   duplicates enabled_tracker = [] \<and> TotalBlocked (stats enabled_tracker) = 0 \<and>
   JobID eval1 = JobID eval2 \<and>
   (\<exists>b1 b2 b3. Block enabled_tracker eval1 = Some b1 \<and> Block b1 eval2 = Some b2 \<and>
      GetDuplicates b2 = Some (Some [eval2], b3) \<and> duplicates b3 = [] \<and>
      map_option (\<lambda>r. TotalBlocked (fst r)) (Stats b3) = Some 1)"
proof -
  have f: "\<not> l_locked busy_tracker" and d: "duplicates busy_tracker = [eval2]"
    by (simp_all add: ex_defs)
  have g: "\<not> l_locked enabled_tracker" and h: "enabled enabled_tracker \<and> jobs enabled_tracker = {} \<and>
   captured enabled_tracker = [] \<and> escaped enabled_tracker = [] \<and>
   duplicates enabled_tracker = [] \<and> TotalBlocked (stats enabled_tracker) = 0 \<and>
   JobID eval1 = JobID eval2"
    by (simp_all add: ex_defs)
  show ?thesis
    using f d g h GetDuplicates_drains [OF f] GetDuplicates_drains [OF g, of eval1 eval2]
    by simp
qed

subsection \<open>SetEnabled, Flush and the stopped worker\<close>

lemma SetEnabled_locked_fields:
  "enabled (SetEnabled_locked on b) = on"
  "running (SetEnabled_locked on b)"
  "workers (SetEnabled_locked on b) = (if running b then workers b else workers b + 1)"
  "stopped (SetEnabled_locked on b) = stopped b"
  "l_locked (SetEnabled_locked on b) = l_locked b"
  by (simp_all add: SetEnabled_locked_def Let_def)

text \<open>
  C9. When \<open>running\<close> is false and the lock is free, the critical section of \<open>SetEnabled\<close>
  starts one worker and sets \<open>running\<close>, whatever the argument. With \<open>true\<close> the call ends
  there. With \<open>false\<close> the \<open>Flush\<close> of the same call closes the stop channel once and sets
  \<open>running\<close> back to false; the worker count stays raised by one.
\<close>

theorem SetEnabled_starts_worker:
  assumes "\<not> running b" and "\<not> l_locked b"
  shows "(\<exists>b'. SetEnabled_section on b = Some b' \<and> running b' \<and> enabled b' = on \<and>
               workers b' = workers b + 1 \<and> stopped b' = stopped b) \<and>
         (\<exists>b'. SetEnabled True b = Some b' \<and> running b' \<and> enabled b' \<and>
               workers b' = workers b + 1 \<and> stopped b' = stopped b) \<and>
         (\<exists>b'. SetEnabled False b = Some b' \<and> \<not> running b' \<and> \<not> enabled b' \<and>
               workers b' = workers b + 1 \<and> stopped b' = stopped b + 1)"
proof -
  have s: "SetEnabled_section x b = Some (SetEnabled_locked x b)" for x
    using assms(2) by (rule SetEnabled_section_free)
  have f: "\<not> l_locked (SetEnabled_locked x b)" for x
    using assms(2) by (simp add: SetEnabled_locked_fields)
  have 1: "\<exists>b'. SetEnabled_section on b = Some b' \<and> running b' \<and> enabled b' = on \<and>
               workers b' = workers b + 1 \<and> stopped b' = stopped b"
    using assms(1) by (simp add: s SetEnabled_locked_fields)
  have 2: "\<exists>b'. SetEnabled True b = Some b' \<and> running b' \<and> enabled b' \<and>
               workers b' = workers b + 1 \<and> stopped b' = stopped b"
    using assms(1) by (simp add: SetEnabled_def s SetEnabled_locked_fields)
  have 3: "\<exists>b'. SetEnabled False b = Some b' \<and> \<not> running b' \<and> \<not> enabled b' \<and>
               workers b' = workers b + 1 \<and> stopped b' = stopped b + 1"
    using assms(1)
    by (simp add: SetEnabled_def s Flush_free[OF f] SetEnabled_locked_fields Flush_locked_fields)
  from 1 2 3 show ?thesis by (intro conjI)
qed

theorem SetEnabled_starts_worker_witness:
  "\<not> running (NewBlockedEvals []) \<and> \<not> l_locked (NewBlockedEvals []) \<and>
   (\<exists>b'. SetEnabled_section False (NewBlockedEvals []) = Some b' \<and> running b' \<and>
         enabled b' = False \<and> workers b' = workers (NewBlockedEvals []) + 1 \<and>
         stopped b' = stopped (NewBlockedEvals [])) \<and>
   SetEnabled False (NewBlockedEvals []) = Some flushed_tracker \<and>
   workers flushed_tracker = 1 \<and> stopped flushed_tracker = 1 \<and> \<not> running flushed_tracker"
proof -
  have r: "\<not> running (NewBlockedEvals [])" and f: "\<not> l_locked (NewBlockedEvals [])"
    by (simp_all add: NewBlockedEvals_def)
  have s: "\<exists>b'. SetEnabled_section False (NewBlockedEvals []) = Some b' \<and> running b' \<and>
         enabled b' = False \<and> workers b' = workers (NewBlockedEvals []) + 1 \<and>
         stopped b' = stopped (NewBlockedEvals [])"
    using SetEnabled_starts_worker [OF r f, of False] by (rule conjunct1)
  have e: "SetEnabled False (NewBlockedEvals []) = Some flushed_tracker"
    by (simp add: SetEnabled_def SetEnabled_section_def Flush_def Lock_def Unlock_def
        SetEnabled_locked_def Flush_locked_def Let_def NewBlockedEvals_def flushed_tracker_def)
  have w: "workers flushed_tracker = 1" "stopped flushed_tracker = 1" "\<not> running flushed_tracker"
    by (simp_all add: flushed_tracker_def NewBlockedEvals_def)
  from r f s e w show ?thesis by (intro conjI)
qed

text \<open>
  C10. \<open>Flush\<close> leaves \<open>enabled\<close> as it was, clears \<open>running\<close> and starts no worker. On an
  enabled tracker a \<open>Block\<close> after the \<open>Flush\<close> is therefore recorded: the evaluation is
  tracked, its job is indexed and one evaluation is counted, while \<open>running\<close> is still false
  and no worker has been started.
\<close>

theorem Flush_keeps_enabled:
  assumes "\<not> l_locked b"
  shows "\<exists>b'. Flush b = Some b' \<and> enabled b' = enabled b \<and> \<not> running b' \<and>
           workers b' = workers b \<and>
           (enabled b \<longrightarrow>
              (\<exists>b''. Block b' eval = Some b'' \<and> tracked b'' = [eval] \<and>
                 jobs b'' = {JobID eval} \<and> TotalBlocked (stats b'') = 1 \<and>
                 \<not> running b'' \<and> workers b'' = workers b))"
proof -
  let ?b' = "Flush_locked b"
  have free: "\<not> l_locked ?b'" using assms by (simp add: Flush_locked_fields)
  have 1: "Flush b = Some ?b'" using assms by (rule Flush_free)
  have 2: "enabled b \<longrightarrow>
              (\<exists>b''. Block ?b' eval = Some b'' \<and> tracked b'' = [eval] \<and>
                 jobs b'' = {JobID eval} \<and> TotalBlocked (stats b'') = 1 \<and>
                 \<not> running b'' \<and> workers b'' = workers b)"
  proof
    assume "enabled b"
    then have en: "enabled ?b'" by (simp add: Flush_locked_fields)
    have "Block ?b' eval = Some (Block_locked ?b' eval)" using free by (rule Block_free)
    then show "\<exists>b''. Block ?b' eval = Some b'' \<and> tracked b'' = [eval] \<and>
                 jobs b'' = {JobID eval} \<and> TotalBlocked (stats b'') = 1 \<and>
                 \<not> running b'' \<and> workers b'' = workers b"
      using en by (simp add: Block_locked_empty Flush_locked_fields)
  qed
  show ?thesis
    by (rule exI[of _ ?b'], intro conjI)
       (rule 1, simp_all only: Flush_locked_fields not_False_eq_True, rule 2)
qed

theorem Flush_keeps_enabled_witness:
  "\<not> l_locked busy_tracker \<and> enabled busy_tracker \<and> running busy_tracker \<and>
   (\<exists>b'. Flush busy_tracker = Some b' \<and> enabled b' \<and> \<not> running b' \<and>
      workers b' = workers busy_tracker \<and>
      (\<exists>b''. Block b' eval3 = Some b'' \<and> tracked b'' = [eval3] \<and>
         jobs b'' = {JobID eval3} \<and> TotalBlocked (stats b'') = 1 \<and>
         \<not> running b'' \<and> workers b'' = workers busy_tracker))"
proof -
  have f: "\<not> l_locked busy_tracker" and e: "enabled busy_tracker" and r: "running busy_tracker"
    by (simp_all add: ex_defs)
  show ?thesis
    using f e r Flush_keeps_enabled [OF f, of eval3] by simp
qed

lemma unblock_stopped:
  assumes "\<not> running b" and "\<not> l_locked b"
  shows "unblock c b = Some (Returned, b\<lparr>l_locked := True\<rparr>)"
  using assms by (simp add: unblock_def Lock_def)

lemma locked_blocks:
  assumes "l_locked b"
  shows "Block b eval = None" and "Flush b = None" and "Stats b = None"
    and "SetEnabled on b = None" and "GetDuplicates b = None" and "unblock c b = None"
    and "Enabled b = None"
  using assms
  by (simp_all add: Block_def Flush_def Stats_def SetEnabled_def SetEnabled_section_def
      GetDuplicates_def unblock_def Enabled_def Lock_def RLock_def)

text \<open>
  C5. The run enables the tracker, blocks an evaluation and disables the tracker again, so
  that \<open>running\<close> is false and the lock is free. A worker that now handles a pending
  notification returns with the store untouched but with the lock still held: line 161
  returns without the \<open>Unlock\<close> that line 215 performs on the other path. Every later
  \<open>Block\<close>, \<open>Flush\<close>, \<open>SetEnabled\<close> and \<open>Stats\<close> then waits for the lock for ever.
\<close>

theorem unblock_stopped_keeps_lock:
  "run (NewBlockedEvals []) [OpSetEnabled True, OpBlock eval1, OpSetEnabled False, OpFlush]
     = Some flushed_tracker \<and>
   \<not> running flushed_tracker \<and> \<not> l_locked flushed_tracker \<and>
   unblock ''classA'' flushed_tracker = Some (Returned, flushed_tracker\<lparr>l_locked := True\<rparr>) \<and>
   Block (flushed_tracker\<lparr>l_locked := True\<rparr>) eval1 = None \<and>
   Flush (flushed_tracker\<lparr>l_locked := True\<rparr>) = None \<and>
   SetEnabled True (flushed_tracker\<lparr>l_locked := True\<rparr>) = None \<and>
   Stats (flushed_tracker\<lparr>l_locked := True\<rparr>) = None"
proof -
  have "run (NewBlockedEvals []) [OpSetEnabled True, OpBlock eval1, OpSetEnabled False, OpFlush]
     = Some flushed_tracker"
    by (simp add: SetEnabled_section_def Block_def Flush_def Lock_def Unlock_def
        SetEnabled_locked_def Block_locked_def Flush_locked_def Let_def
        NewBlockedEvals_def flushed_tracker_def eval1_def)
  moreover have r: "\<not> running flushed_tracker" and f: "\<not> l_locked flushed_tracker"
    by (simp_all add: flushed_tracker_def NewBlockedEvals_def)
  moreover note unblock_stopped[OF r f, of "''classA''"]
  moreover have "l_locked (flushed_tracker\<lparr>l_locked := True\<rparr>)" by simp
  ultimately show ?thesis by (simp add: locked_blocks)
qed

subsection \<open>Block and the job index\<close>

lemma update_fresh: "k \<notin> fst ` set m \<Longrightarrow> AList.update k v m = m @ [(k, v)]"
  by (induction m) auto

lemma of_job_empty: "J \<notin> JobID ` set xs \<Longrightarrow> of_job J xs = []"
  by (auto simp: of_job_def filter_empty_conv)

lemma of_job_distinct: "distinct (map JobID xs) \<Longrightarrow> length (of_job J xs) \<le> 1"
proof (induction xs)
  case Nil
  then show ?case by (simp add: of_job_def)
next
  case (Cons x xs)
  show ?case
  proof (cases "JobID x = J")
    case True
    with Cons.prems have "J \<notin> JobID ` set xs" by auto
    then have "of_job J xs = []" by (rule of_job_empty)
    with True show ?thesis by (simp add: of_job_def)
  next
    case False
    with Cons show ?thesis by (simp add: of_job_def)
  qed
qed

lemma of_job_append: "of_job J (xs @ ys) = of_job J xs @ of_job J ys"
  by (simp add: of_job_def)

lemma jobs_iff_tracked:
  "store_inv b \<Longrightarrow> J \<in> jobs b \<longleftrightarrow> of_job J (tracked b) \<noteq> []"
  by (auto simp: store_inv_def of_job_def filter_empty_conv)

lemma fresh_ID:
  assumes inv: "store_inv b" and inj: "inj_on ID U" and e: "e \<in> U"
    and sub: "set (tracked b) \<subseteq> U" and new: "JobID e \<notin> jobs b"
  shows "ID e \<notin> fst ` set (captured b)" and "ID e \<notin> fst ` set (escaped b)"
proof -
  have "False" if "(ID e, e') \<in> set (captured b) \<union> set (escaped b)" for e'
  proof -
    from that inv have id: "ID e = ID e'"
      by (auto simp: store_inv_def keyed_by_ID_def)
    from that have tr: "e' \<in> set (tracked b)" by (force simp: tracked_def)
    with sub have "e' \<in> U" by blast
    with inj e id have "e = e'" by (auto dest: inj_onD)
    with tr inv have "JobID e \<in> jobs b" by (simp add: store_inv_def)
    with new show False by simp
  qed
  then show "ID e \<notin> fst ` set (captured b)" and "ID e \<notin> fst ` set (escaped b)"
    by force+
qed

lemma Block_locked_new:
  assumes "enabled b" and "JobID e \<notin> jobs b"
    and "ID e \<notin> fst ` set (captured b)" and "ID e \<notin> fst ` set (escaped b)"
  shows "captured (Block_locked b e) =
           (if EscapedComputedClass e then captured b else captured b @ [(ID e, e)])"
    and "escaped (Block_locked b e) =
           (if EscapedComputedClass e then escaped b @ [(ID e, e)] else escaped b)"
    and "jobs (Block_locked b e) = insert (JobID e) (jobs b)"
    and "duplicates (Block_locked b e) = duplicates b"
    and "TotalBlocked (stats (Block_locked b e)) = TotalBlocked (stats b) + 1"
    and "TotalEscaped (stats (Block_locked b e)) =
           (if EscapedComputedClass e then TotalEscaped (stats b) + 1 else TotalEscaped (stats b))"
  using assms by (simp_all add: Block_locked_def Let_def update_fresh)

lemma Block_locked_old:
  assumes "enabled b" and "JobID e \<in> jobs b"
  shows "captured (Block_locked b e) = captured b"
    and "escaped (Block_locked b e) = escaped b"
    and "jobs (Block_locked b e) = jobs b"
    and "duplicates (Block_locked b e) = duplicates b @ [e]"
    and "stats (Block_locked b e) = stats b"
  using assms by (simp_all add: Block_locked_def)

lemma Block_locked_off:
  "\<not> enabled b \<Longrightarrow> Block_locked b e = b"
  by (simp add: Block_locked_def)

lemma Block_locked_store_inv:
  assumes inv: "store_inv b" and inj: "inj_on ID U" and e: "e \<in> U"
    and sub: "set (tracked b) \<subseteq> U"
  shows "store_inv (Block_locked b e) \<and> set (tracked (Block_locked b e)) \<subseteq> U"
proof (cases "enabled b")
  case False
  then show ?thesis using inv sub by (simp add: Block_locked_off)
next
  case en: True
  show ?thesis
  proof (cases "JobID e \<in> jobs b")
    case True
    then show ?thesis using inv sub en
      by (simp add: store_inv_def tracked_def Block_locked_old)
  next
    case False
    note fr = fresh_ID[OF inv inj e sub False]
    note n = Block_locked_new[OF en False fr]
    have jt: "JobID e \<notin> JobID ` set (tracked b)"
      using False inv by (simp add: store_inv_def)
    show ?thesis
      using inv sub e fr jt
      by (cases "EscapedComputedClass e")
         (auto simp: store_inv_def keyed_by_ID_def tracked_def n)
  qed
qed

lemma Block_locked_counters:
  assumes inv: "store_inv b" and inj: "inj_on ID U" and e: "e \<in> U"
    and sub: "set (tracked b) \<subseteq> U" and c: "counters_inv b"
  shows "counters_inv (Block_locked b e)"
proof (cases "enabled b")
  case False
  then show ?thesis using c by (simp add: Block_locked_off)
next
  case en: True
  show ?thesis
  proof (cases "JobID e \<in> jobs b")
    case True
    then show ?thesis using c en by (simp add: counters_inv_def Block_locked_old)
  next
    case False
    note fr = fresh_ID[OF inv inj e sub False]
    show ?thesis using c
      by (simp add: counters_inv_def Block_locked_new[OF en False fr])
  qed
qed

lemma Block_locked_of_job:
  assumes inv: "store_inv b" and inj: "inj_on ID U" and e: "e \<in> U"
    and sub: "set (tracked b) \<subseteq> U" and en: "enabled b"
  shows "of_job J (tracked (Block_locked b e)) =
           (if JobID e = J \<and> J \<notin> jobs b then [e] else of_job J (tracked b))"
    and "duplicates (Block_locked b e) = duplicates b @ (if JobID e \<in> jobs b then [e] else [])"
    and "jobs (Block_locked b e) = insert (JobID e) (jobs b)"
proof -
  show "of_job J (tracked (Block_locked b e)) =
           (if JobID e = J \<and> J \<notin> jobs b then [e] else of_job J (tracked b))"
  proof (cases "JobID e \<in> jobs b")
    case True
    then show ?thesis using en by (auto simp: tracked_def Block_locked_old)
  next
    case False
    note fr = fresh_ID[OF inv inj e sub False]
    note n = Block_locked_new[OF en False fr]
    have jt: "JobID e \<notin> JobID ` set (tracked b)"
      using False inv by (simp add: store_inv_def)
    then have "JobID e \<notin> JobID ` snd ` set (captured b)" "JobID e \<notin> JobID ` snd ` set (escaped b)"
      by (auto simp: tracked_def)
    then have z: "of_job (JobID e) (map snd (captured b)) = []"
      "of_job (JobID e) (map snd (escaped b)) = []"
      by (simp_all add: of_job_empty)
    show ?thesis
    proof (cases "JobID e = J")
      case True
      then show ?thesis using False z
        by (simp add: tracked_def n of_job_append) (simp add: of_job_def)
    next
      case F: False
      then show ?thesis
        by (simp add: tracked_def n of_job_append) (simp add: of_job_def)
    qed
  qed
  show "duplicates (Block_locked b e) = duplicates b @ (if JobID e \<in> jobs b then [e] else [])"
    using en by (simp add: Block_locked_def Let_def)
  show "jobs (Block_locked b e) = insert (JobID e) (jobs b)"
    using en by (auto simp: Block_locked_def Let_def)
qed

lemma Blocks_dedup:
  assumes "enabled b" and "\<not> l_locked b" and "store_inv b" and "set (tracked b) \<subseteq> U"
    and "set evals \<subseteq> U" and "inj_on ID U"
  shows "\<exists>b'. Blocks b evals = Some b' \<and> store_inv b' \<and>
           of_job J (tracked b') =
             (if J \<in> jobs b then of_job J (tracked b) else take 1 (of_job J evals)) \<and>
           of_job J (duplicates b') =
             of_job J (duplicates b) @
             (if J \<in> jobs b then of_job J evals else drop 1 (of_job J evals))"
  using assms
proof (induction evals arbitrary: b)
  case Nil
  then have "of_job J (tracked b) = []" if "J \<notin> jobs b"
    using that by (simp add: jobs_iff_tracked)
  then show ?case using Nil by (simp add: of_job_def)
next
  case (Cons e evals)
  let ?b1 = "Block_locked b e"
  have e: "e \<in> U" and rest: "set evals \<subseteq> U" using Cons.prems(5) by simp_all
  note inv = Cons.prems(3) and inj = Cons.prems(6) and sub = Cons.prems(4) and en = Cons.prems(1)
  have s1: "store_inv ?b1" and t1: "set (tracked ?b1) \<subseteq> U"
    using Block_locked_store_inv[OF inv inj e sub] by simp_all
  have en1: "enabled ?b1" and f1: "\<not> l_locked ?b1"
    using en Cons.prems(2) by (simp_all add: Block_locked_frame)
  note st = Block_locked_of_job[OF inv inj e sub en]
  from Cons.IH[OF en1 f1 s1 t1 rest inj] obtain b' where
    r: "Blocks ?b1 evals = Some b'" and i: "store_inv b'"
    and tr: "of_job J (tracked b') =
             (if J \<in> jobs ?b1 then of_job J (tracked ?b1) else take 1 (of_job J evals))"
    and du: "of_job J (duplicates b') =
             of_job J (duplicates ?b1) @
             (if J \<in> jobs ?b1 then of_job J evals else drop 1 (of_job J evals))"
    by blast
  have run: "Blocks b (e # evals) = Some b'"
    using r Block_free[OF Cons.prems(2)] by simp
  have tr': "of_job J (tracked b') =
             (if J \<in> jobs b then of_job J (tracked b) else take 1 (of_job J (e # evals)))"
    unfolding tr st by (auto simp: of_job_def)
  have du': "of_job J (duplicates b') =
             of_job J (duplicates b) @
             (if J \<in> jobs b then of_job J (e # evals) else drop 1 (of_job J (e # evals)))"
    unfolding du st by (auto simp: of_job_def)
  from run i tr' du' show ?case by blast
qed

text \<open>
  The maps are keyed by ID, so an ID has to name one evaluation. When two different
  evaluations of different jobs share an ID, the second replaces the first in the map while
  both are counted and both jobs stay indexed. The hypothesis \<open>inj_on ID\<close> of the theorems
  on \<open>Block\<close> excludes exactly this.
\<close>

lemma shared_ID_overwrites:
  "\<exists>b'. Blocks enabled_tracker [eval1, eval5] = Some b' \<and>
        captured b' = [(''e1'', eval5)] \<and> TotalBlocked (stats b') = 2 \<and>
        ''j1'' \<in> jobs b' \<and> of_job ''j1'' (tracked b') = []"
  by (simp add: Block_def Lock_def Unlock_def Block_locked_def Let_def tracked_def of_job_def
      ex_defs eval5_def)

text \<open>
  C1. Take an enabled tracker with a free lock and an empty store, and any sequence of
  \<open>Block\<close> calls whose evaluations are told apart by their IDs. All the calls return. For
  every job \<open>J\<close>, at most one evaluation of \<open>J\<close> is held in \<open>captured\<close> and \<open>escaped\<close>
  together, \<open>J\<close> is in \<open>jobs\<close> exactly when there is one, the one held is the first
  evaluation blocked for \<open>J\<close>, and all later ones are in \<open>duplicates\<close> in call order.
\<close>

theorem Block_dedup:
  assumes "enabled b" and "\<not> l_locked b"
    and "captured b = []" and "escaped b = []" and "jobs b = {}" and "duplicates b = []"
    and "inj_on ID (set evals)"
  shows "\<exists>b'. Blocks b evals = Some b' \<and>
           length (of_job J (tracked b')) \<le> 1 \<and>
           (J \<in> jobs b' \<longleftrightarrow> length (of_job J (tracked b')) = 1) \<and>
           of_job J (tracked b') = take 1 (of_job J evals) \<and>
           of_job J (duplicates b') = drop 1 (of_job J evals)"
proof -
  have inv: "store_inv b" and sub: "set (tracked b) \<subseteq> set evals"
    using assms(3-5) by (simp_all add: store_inv_def keyed_by_ID_def tracked_def)
  from Blocks_dedup[OF assms(1,2) inv sub subset_refl assms(7), of J]
  obtain b' where r: "Blocks b evals = Some b'" and i: "store_inv b'"
    and tr: "of_job J (tracked b') = take 1 (of_job J evals)"
    and du: "of_job J (duplicates b') = drop 1 (of_job J evals)"
    using assms(5,6) by (auto simp: of_job_def)
  have "distinct (map JobID (tracked b'))"
    using i by (simp add: store_inv_def)
  then have le: "length (of_job J (tracked b')) \<le> 1"
    by (rule of_job_distinct)
  have iff: "J \<in> jobs b' \<longleftrightarrow> length (of_job J (tracked b')) = 1"
    using le jobs_iff_tracked[OF i, of J] by (cases "of_job J (tracked b')") auto
  from r le iff tr du show ?thesis by blast
qed

theorem Block_dedup_witness:
  "enabled enabled_tracker \<and> \<not> l_locked enabled_tracker \<and> captured enabled_tracker = [] \<and>
   escaped enabled_tracker = [] \<and> jobs enabled_tracker = {} \<and> duplicates enabled_tracker = [] \<and>
   inj_on ID (set [eval1, eval2, eval3, eval4]) \<and>
   of_job ''j1'' [eval1, eval2, eval3, eval4] = [eval1, eval2] \<and>
   (\<exists>b'. Blocks enabled_tracker [eval1, eval2, eval3, eval4] = Some b' \<and>
      ''j1'' \<in> jobs b' \<and> of_job ''j1'' (tracked b') = [eval1] \<and>
      of_job ''j1'' (duplicates b') = [eval2])"
proof -
  have h: "enabled enabled_tracker" "\<not> l_locked enabled_tracker" "captured enabled_tracker = []"
    "escaped enabled_tracker = []" "jobs enabled_tracker = {}" "duplicates enabled_tracker = []"
    by (simp_all add: ex_defs)
  have i: "inj_on ID (set [eval1, eval2, eval3, eval4])"
    by (simp add: ex_defs)
  have o: "of_job ''j1'' [eval1, eval2, eval3, eval4] = [eval1, eval2]"
    by (simp add: of_job_def ex_defs)
  show ?thesis
    using h i o Block_dedup [OF h i, of "''j1''"] by (auto simp: o)
qed

subsection \<open>The counters along every run\<close>

lemma inv_frame:
  "store_inv (b\<lparr>l_locked := x\<rparr>) = store_inv b"
  "store_inv (b\<lparr>duplicates := d\<rparr>) = store_inv b"
  "counters_inv (b\<lparr>l_locked := x\<rparr>) = counters_inv b"
  "counters_inv (b\<lparr>duplicates := d\<rparr>) = counters_inv b"
  "tracked (b\<lparr>l_locked := x\<rparr>) = tracked b"
  "tracked (b\<lparr>duplicates := d\<rparr>) = tracked b"
  by (simp_all add: store_inv_def counters_inv_def tracked_def)

lemma SetEnabled_locked_store:
  "captured (SetEnabled_locked on b) = captured b"
  "escaped (SetEnabled_locked on b) = escaped b"
  "jobs (SetEnabled_locked on b) = jobs b"
  "stats (SetEnabled_locked on b) = stats b"
  by (simp_all add: SetEnabled_locked_def Let_def)

lemma SetEnabled_locked_inv:
  "store_inv (SetEnabled_locked on b) = store_inv b"
  "counters_inv (SetEnabled_locked on b) = counters_inv b"
  "tracked (SetEnabled_locked on b) = tracked b"
  by (simp_all add: store_inv_def counters_inv_def tracked_def SetEnabled_locked_store)

lemma Flush_locked_inv:
  "store_inv (Flush_locked b)" "counters_inv (Flush_locked b)" "tracked (Flush_locked b) = []"
  by (simp_all add: store_inv_def counters_inv_def tracked_def keyed_by_ID_def Flush_locked_fields)

lemma unblock_locked_tracked:
  assumes "store_inv b"
  shows "tracked (unblock_locked c b) = map snd (filter (\<lambda>p. \<not> released_for c p) (captured b))"
proof -
  have "distinct (map fst (captured b))"
    using assms by (simp add: store_inv_def keyed_by_ID_def)
  then show ?thesis
    by (simp add: tracked_def unblock_locked_escaped unblock_locked_captured keyed_captured_kept
        del: set_filter)
qed

lemma unblock_locked_store_inv:
  assumes inv: "store_inv b"
  shows "store_inv (unblock_locked c b)"
proof -
  let ?keep = "filter (\<lambda>p. \<not> released_for c p) (captured b)"
  let ?rel = "filter (released_for c) (captured b)"
  have dk: "distinct (map fst (captured b))" and kid: "\<forall>(k, e) \<in> set (captured b). k = ID e"
    and dj: "distinct (map JobID (tracked b))" and jb: "jobs b = JobID ` set (tracked b)"
    using inv by (simp_all add: store_inv_def keyed_by_ID_def)
  have cap: "captured (unblock_locked c b) = ?keep"
    by (simp add: unblock_locked_captured keyed_captured_kept[OF dk] del: set_filter)
  have tr: "tracked (unblock_locked c b) = map snd ?keep"
    by (rule unblock_locked_tracked[OF inv])
  have 1: "keyed_by_ID ?keep"
    using dk kid by (auto simp: keyed_by_ID_def distinct_map_filter)
  have djc: "distinct (map JobID (map snd (captured b)))"
    using dj by (simp add: tracked_def)
  have 2: "distinct (map JobID (map snd ?keep))"
    using djc by (simp add: distinct_map_filter comp_def)
  have inj: "inj_on JobID (set (tracked b))"
    using dj by (simp add: distinct_map)
  have dt: "distinct (tracked b)"
    using dj by (simp add: distinct_map)
  have split: "set (tracked b) = snd ` set ?keep \<union> (snd ` set (escaped b) \<union> snd ` set ?rel)"
    by (auto simp: tracked_def)
  have disj: "snd ` set ?keep \<inter> (snd ` set (escaped b) \<union> snd ` set ?rel) = {}"
  proof -
    have "snd ` set ?keep \<inter> snd ` set ?rel = {}"
      by (auto simp: released_for_def)
    moreover have "snd ` set (captured b) \<inter> snd ` set (escaped b) = {}"
      using dt by (auto simp: tracked_def)
    ultimately show ?thesis by auto
  qed
  have 3: "jobs (unblock_locked c b) = JobID ` set (map snd ?keep)"
  proof -
    have "jobs (unblock_locked c b)
        = JobID ` set (tracked b) - JobID ` (snd ` set (escaped b) \<union> snd ` set ?rel)"
      by (simp add: unblock_locked_jobs jb)
    also have "\<dots> = JobID ` (set (tracked b) - (snd ` set (escaped b) \<union> snd ` set ?rel))"
      by (rule inj_on_image_set_diff[OF inj, symmetric]) (auto simp: tracked_def)
    also have "set (tracked b) - (snd ` set (escaped b) \<union> snd ` set ?rel) = snd ` set ?keep"
      using split disj by auto
    finally show ?thesis by simp
  qed
  show ?thesis
    unfolding store_inv_def tr cap unblock_locked_escaped
    using 1 2 3 by (simp add: keyed_by_ID_def)
qed

lemma unblock_locked_counters:
  assumes inv: "store_inv b" and c: "counters_inv b"
  shows "counters_inv (unblock_locked c' b)"
proof -
  let ?keep = "filter (\<lambda>p. \<not> released_for c' p) (captured b)"
  let ?rel = "filter (released_for c') (captured b)"
  have dk: "distinct (map fst (captured b))"
    using inv by (simp add: store_inv_def keyed_by_ID_def)
  have cap: "captured (unblock_locked c' b) = ?keep"
    by (simp add: unblock_locked_captured keyed_captured_kept[OF dk] del: set_filter)
  have len: "length ?rel + length ?keep = length (captured b)"
    by (rule sum_length_filter_compl)
  have tb: "TotalBlocked (stats b) = int (length (captured b)) + int (length (escaped b))"
    and te: "TotalEscaped (stats b) = int (length (escaped b))"
    using c by (simp_all add: counters_inv_def)
  show ?thesis
  proof (cases "map snd (escaped b) @ map snd ?rel = []")
    case True
    then have "escaped b = []" "?rel = []" by simp_all
    with len tb te show ?thesis
      by (simp add: counters_inv_def cap unblock_locked_escaped unblock_locked_stats Let_def)
  next
    case False
    with len tb show ?thesis
      by (simp add: counters_inv_def cap unblock_locked_escaped unblock_locked_stats Let_def)
  qed
qed

lemma GetDuplicates_scan:
  assumes "\<not> l_locked b"
  shows "GetDuplicates b =
           Some (if duplicates b \<noteq> [] then (Some (duplicates b), b\<lparr>duplicates := []\<rparr>)
                 else (None, b))"
  using assms by (cases b) (simp add: GetDuplicates_def Lock_def Unlock_def)

lemma op_evals_Cons: "set (op_evals (x # xs)) = set (op_evals [x]) \<union> set (op_evals xs)"
  by (cases x) simp_all

lemma step_inv:
  assumes st: "step b x = Some b'"
    and inv: "store_inv b" and cnt: "counters_inv b" and sub: "set (tracked b) \<subseteq> U"
    and ev: "set (op_evals [x]) \<subseteq> U" and inj: "inj_on ID U"
  shows "store_inv b' \<and> counters_inv b' \<and> set (tracked b') \<subseteq> U"
proof -
  have free: "\<not> l_locked b"
  proof
    assume "l_locked b"
    then have "step b x = None"
      by (cases x) (simp_all add: locked_blocks SetEnabled_section_def Lock_def)
    with st show False by simp
  qed
  show ?thesis
  proof (cases x)
    case (OpSetEnabled on)
    with st have "b' = SetEnabled_locked on b"
      by (simp add: SetEnabled_section_free[OF free])
    with inv cnt sub show ?thesis by (simp add: SetEnabled_locked_inv)
  next
    case (OpBlock e)
    with st have b': "b' = Block_locked b e" by (simp add: Block_free[OF free])
    from OpBlock ev have e: "e \<in> U" by simp
    show ?thesis
      unfolding b'
      using Block_locked_store_inv[OF inv inj e sub] Block_locked_counters[OF inv inj e sub cnt]
      by simp
  next
    case (OpUnblock c)
    show ?thesis
    proof (cases "running b")
      case True
      with st OpUnblock have b': "b' = unblock_locked c b"
        by (simp add: unblock_free[OF True free])
      have "set (tracked b') \<subseteq> set (tracked b)"
        unfolding b' unblock_locked_tracked[OF inv] by (auto simp: tracked_def)
      with sub have "set (tracked b') \<subseteq> U" by blast
      then show ?thesis
        unfolding b'
        using unblock_locked_store_inv[OF inv] unblock_locked_counters[OF inv cnt] by simp
    next
      case False
      with st OpUnblock have "b' = b\<lparr>l_locked := True\<rparr>"
        by (simp add: unblock_stopped[OF False free])
      with inv cnt sub show ?thesis by (simp add: inv_frame)
    qed
  next
    case OpGetDuplicates
    with st have "b' = b\<lparr>duplicates := []\<rparr> \<or> b' = b"
      by (auto simp: GetDuplicates_scan[OF free] split: if_splits)
    with inv cnt sub show ?thesis by (auto simp: inv_frame)
  next
    case OpFlush
    with st have "b' = Flush_locked b" by (simp add: Flush_free[OF free])
    then show ?thesis by (simp add: Flush_locked_inv)
  qed
qed

lemma run_inv:
  assumes "run b ops = Some b'"
    and "store_inv b" and "counters_inv b" and "set (tracked b) \<subseteq> U"
    and "set (op_evals ops) \<subseteq> U" and "inj_on ID U"
  shows "store_inv b' \<and> counters_inv b'"
  using assms
proof (induction ops arbitrary: b)
  case Nil
  then show ?case by simp
next
  case (Cons x xs)
  from Cons.prems(1) obtain b1 where s: "step b x = Some b1" and r: "run b1 xs = Some b'"
    by (auto split: option.splits)
  from Cons.prems(5) have e1: "set (op_evals [x]) \<subseteq> U" and e2: "set (op_evals xs) \<subseteq> U"
    using op_evals_Cons[of x xs] by auto
  from step_inv[OF s Cons.prems(2,3,4) e1 Cons.prems(6)]
  have "store_inv b1" "counters_inv b1" "set (tracked b1) \<subseteq> U" by simp_all
  then show ?case using Cons.IH[OF r _ _ _ e2 Cons.prems(6)] by simp
qed

text \<open>
  C4. Start from a new tracker and let any sequence of critical sections run to its end:
  \<open>SetEnabled\<close>, \<open>Block\<close>, the worker handling a notification, \<open>GetDuplicates\<close> and
  \<open>Flush\<close>, in any order, over evaluations that are told apart by their IDs. After the
  last step, be it a \<open>Block\<close>, a notification or a \<open>Flush\<close>, \<open>TotalBlocked\<close> is the number of
  entries of \<open>captured\<close> plus that of \<open>escaped\<close>, and \<open>TotalEscaped\<close> is the number of
  entries of \<open>escaped\<close>. Duplicates are not counted. The keys of each map are pairwise
  different, so the lengths are the sizes of the maps.
\<close>

theorem counters_hold:
  assumes "run (NewBlockedEvals broker) ops = Some b"
    and "inj_on ID (set (op_evals ops))"
  shows "TotalBlocked (stats b) = int (length (captured b)) + int (length (escaped b)) \<and>
         TotalEscaped (stats b) = int (length (escaped b)) \<and>
         distinct (map fst (captured b)) \<and> distinct (map fst (escaped b))"
proof -
  have "store_inv (NewBlockedEvals broker)" "counters_inv (NewBlockedEvals broker)"
    "set (tracked (NewBlockedEvals broker)) \<subseteq> set (op_evals ops)"
    by (simp_all add: store_inv_def counters_inv_def tracked_def keyed_by_ID_def NewBlockedEvals_def)
  from run_inv[OF assms(1) this subset_refl assms(2)]
  show ?thesis by (simp add: store_inv_def counters_inv_def keyed_by_ID_def)
qed

theorem counters_hold_witness:
  "run (NewBlockedEvals [])
     [OpSetEnabled True, OpBlock eval1, OpBlock eval2, OpBlock eval3, OpBlock eval4,
      OpUnblock ''classA''] = Some after_classA \<and>
   inj_on ID (set (op_evals
     [OpSetEnabled True, OpBlock eval1, OpBlock eval2, OpBlock eval3, OpBlock eval4,
      OpUnblock ''classA''])) \<and>
   TotalBlocked (stats after_classA) = 1 \<and> length (captured after_classA) = 1 \<and>
   length (escaped after_classA) = 0 \<and> TotalEscaped (stats after_classA) = 0 \<and>
   TotalBlocked (stats after_classA)
     = int (length (captured after_classA)) + int (length (escaped after_classA)) \<and>
   TotalEscaped (stats after_classA) = int (length (escaped after_classA))"
proof -
  let ?ops = "[OpSetEnabled True, OpBlock eval1, OpBlock eval2, OpBlock eval3, OpBlock eval4,
      OpUnblock ''classA'']"
  have r: "run (NewBlockedEvals []) ?ops = Some after_classA"
    by (simp add: SetEnabled_section_def Block_def unblock_def Lock_def Unlock_def
        SetEnabled_locked_def Block_locked_def unblock_locked_def Let_def
        after_classA_def ex_defs insert_Diff_if)
  have i: "inj_on ID (set (op_evals ?ops))"
    by (simp add: ex_defs)
  have v: "TotalBlocked (stats after_classA) = 1" "length (captured after_classA) = 1"
    "length (escaped after_classA) = 0" "TotalEscaped (stats after_classA) = 0"
    by (simp_all add: after_classA_def)
  from counters_hold [OF r i] have
    "TotalBlocked (stats after_classA)
       = int (length (captured after_classA)) + int (length (escaped after_classA))"
    "TotalEscaped (stats after_classA) = int (length (escaped after_classA))"
    by simp_all
  with r i v show ?thesis by (intro conjI)
qed

subsection \<open>The escaped counter along every run\<close>

text \<open>
  Whatever the evaluations are, \<open>TotalEscaped\<close> is 0 whenever \<open>escaped\<close> is empty: only
  \<open>Block\<close> raises the counter, and it adds an entry to \<open>escaped\<close> when it does.
\<close>

lemma step_escaped_counter:
  assumes st: "step b x = Some b'" and p: "escaped b \<noteq> [] \<or> TotalEscaped (stats b) = 0"
  shows "escaped b' \<noteq> [] \<or> TotalEscaped (stats b') = 0"
proof -
  have free: "\<not> l_locked b"
  proof
    assume "l_locked b"
    then have "step b x = None"
      by (cases x) (simp_all add: locked_blocks SetEnabled_section_def Lock_def)
    with st show False by simp
  qed
  show ?thesis
  proof (cases x)
    case (OpSetEnabled on)
    with st have "b' = SetEnabled_locked on b"
      by (simp add: SetEnabled_section_free[OF free])
    with p show ?thesis by (simp add: SetEnabled_locked_store)
  next
    case (OpBlock e)
    with st have "b' = Block_locked b e" by (simp add: Block_free[OF free])
    with p show ?thesis by (auto simp: Block_locked_def Let_def)
  next
    case (OpUnblock c)
    show ?thesis
    proof (cases "running b")
      case True
      with st OpUnblock have "b' = unblock_locked c b"
        by (simp add: unblock_free[OF True free])
      with p show ?thesis by (auto simp: unblock_locked_stats Let_def)
    next
      case False
      with st OpUnblock have "b' = b\<lparr>l_locked := True\<rparr>"
        by (simp add: unblock_stopped[OF False free])
      with p show ?thesis by simp
    qed
  next
    case OpGetDuplicates
    with st have "b' = b\<lparr>duplicates := []\<rparr> \<or> b' = b"
      by (auto simp: GetDuplicates_scan[OF free] split: if_splits)
    with p show ?thesis by auto
  next
    case OpFlush
    with st have "b' = Flush_locked b" by (simp add: Flush_free[OF free])
    then show ?thesis by (simp add: Flush_locked_fields)
  qed
qed

lemma run_escaped_counter:
  assumes "run b ops = Some b'" and "escaped b \<noteq> [] \<or> TotalEscaped (stats b) = 0"
  shows "escaped b' \<noteq> [] \<or> TotalEscaped (stats b') = 0"
  using assms
proof (induction ops arbitrary: b)
  case Nil
  then show ?case by simp
next
  case (Cons x xs)
  from Cons.prems(1) obtain b1 where s: "step b x = Some b1" and r: "run b1 xs = Some b'"
    by (auto split: option.splits)
  from step_escaped_counter[OF s Cons.prems(2)] Cons.IH[OF r] show ?case by simp
qed

end
